theory Spec2Isabelle
  imports Main "HOL-Library.Sublist" "HOL-Library.Word"
begin

section \<open>Strings: the library calls of the search\<close>

text \<open>
  A Go string is a sequence of bytes; \<^typ>\<open>string\<close> is a list of 8-bit characters.

  \<^verbatim>\<open>strings.HasSuffix(s, suffix)\<close> reports whether \<open>s\<close> ends with \<open>suffix\<close>, byte for
  byte (so the comparison is exact and case-sensitive).
\<close>

definition HasSuffix :: "string \<Rightarrow> string \<Rightarrow> bool" where
  "HasSuffix s suffix' = suffix suffix' s"

text \<open>
  The older variant of the program (the second source file) compares the tail by hand:
  \<^verbatim>\<open>len(pubkeyString) >= len(suffix) && pubkeyString[len(pubkeyString)-len(suffix):] == suffix\<close>.
  The slice is evaluated only when the length test has passed (\<open>&&\<close> short-circuits), so
  the slice expression never panics.
\<close>

definition guardedTailMatch :: "string \<Rightarrow> string \<Rightarrow> bool" where
  "guardedTailMatch pubkeyString suffix' =
     (if length pubkeyString \<ge> length suffix'
      then drop (length pubkeyString - length suffix') pubkeyString = suffix'
      else False)"

text \<open>
  \<^verbatim>\<open>strings.TrimSpace(s)\<close> removes all leading and trailing white space, as defined by
  Unicode. The white-space code points (\<^verbatim>\<open>unicode.IsSpace\<close>) are U+0009..U+000D, U+0020,
  U+0085, U+00A0, U+1680, U+2000..U+200A, U+2028, U+2029, U+202F, U+205F and U+3000;
  \<open>whiteSpace\<close> lists their UTF-8 encodings. Bytes that do not decode are U+FFFD for Go, which
  is not white space, so trimming removes exactly these byte sequences from both ends.
\<close>

definition whiteSpace :: "string list" where
  "whiteSpace =
     [[CHR 0x09], [CHR 0x0A], [CHR 0x0B], [CHR 0x0C], [CHR 0x0D], [CHR 0x20],
      [CHR 0xC2, CHR 0x85], [CHR 0xC2, CHR 0xA0], [CHR 0xE1, CHR 0x9A, CHR 0x80],
      [CHR 0xE2, CHR 0x80, CHR 0x80], [CHR 0xE2, CHR 0x80, CHR 0x81], [CHR 0xE2, CHR 0x80, CHR 0x82],
      [CHR 0xE2, CHR 0x80, CHR 0x83], [CHR 0xE2, CHR 0x80, CHR 0x84], [CHR 0xE2, CHR 0x80, CHR 0x85],
      [CHR 0xE2, CHR 0x80, CHR 0x86], [CHR 0xE2, CHR 0x80, CHR 0x87], [CHR 0xE2, CHR 0x80, CHR 0x88],
      [CHR 0xE2, CHR 0x80, CHR 0x89], [CHR 0xE2, CHR 0x80, CHR 0x8A],
      [CHR 0xE2, CHR 0x80, CHR 0xA8], [CHR 0xE2, CHR 0x80, CHR 0xA9], [CHR 0xE2, CHR 0x80, CHR 0xAF],
      [CHR 0xE2, CHR 0x81, CHR 0x9F], [CHR 0xE3, CHR 0x80, CHR 0x80]]"

definition leadingSpace :: "string \<Rightarrow> nat" where
  "leadingSpace s = (case filter (\<lambda>w. prefix w s) whiteSpace of [] \<Rightarrow> 0 | w # _ \<Rightarrow> length w)"

fun trimLeft :: "nat \<Rightarrow> string \<Rightarrow> string" where
  "trimLeft 0 s = s"
| "trimLeft (Suc n) s = (if leadingSpace s = 0 then s else trimLeft n (drop (leadingSpace s) s))"

definition TrimLeft :: "string \<Rightarrow> string" where
  "TrimLeft s = trimLeft (length s) s"

definition trailingSpace :: "string \<Rightarrow> nat" where
  "trailingSpace s = (case filter (\<lambda>w. suffix w s) whiteSpace of [] \<Rightarrow> 0 | w # _ \<Rightarrow> length w)"

fun trimRight :: "nat \<Rightarrow> string \<Rightarrow> string" where
  "trimRight 0 s = s"
| "trimRight (Suc n) s =
     (if trailingSpace s = 0 then s else trimRight n (take (length s - trailingSpace s) s))"

definition TrimRight :: "string \<Rightarrow> string" where
  "TrimRight s = trimRight (length s) s"

definition TrimSpace :: "string \<Rightarrow> string" where
  "TrimSpace s = TrimRight (TrimLeft s)"

text \<open>
  \<^verbatim>\<open>base58.Encode(bin)\<close> (the Bitcoin alphabet). The encoder counts the leading zero bytes
  (\<open>zcount\<close>), writes the big-endian number the bytes denote as base-58 digits into a
  buffer of \<open>(len(bin) - zcount) * 555 / 406 + 1\<close> digits, skips the zero digits at the front
  of the buffer and puts one \<open>1\<close> (the digit zero) for every leading zero byte before the
  rest.
\<close>

definition b58Alphabet :: string where
  "b58Alphabet = ''123456789ABCDEFGHJKLMNPQRSTUVWXYZabcdefghijkmnopqrstuvwxyz''"

text \<open>The \<open>k\<close> low base-58 digits of \<open>n\<close>, the most significant first.\<close>

fun digits58 :: "nat \<Rightarrow> nat \<Rightarrow> nat list" where
  "digits58 0 n = []"
| "digits58 (Suc k) n = digits58 k (n div 58) @ [n mod 58]"

definition bytesToNat :: "8 word list \<Rightarrow> nat" where
  "bytesToNat bin = foldl (\<lambda>n b. 256 * n + unat b) 0 bin"

definition Encode :: "8 word list \<Rightarrow> string" where
  "Encode bin =
     (let zcount = length (takeWhile (\<lambda>b. b = 0) bin);
          size = (length bin - zcount) * 555 div 406 + 1;
          out = digits58 size (bytesToNat bin)
      in replicate zcount (CHR ''1'') @
         map (\<lambda>d. b58Alphabet ! d) (dropWhile (\<lambda>d. d = 0) out))"

section \<open>The vanity search: \<open>generateVanityKeypair\<close>\<close>

text \<open>
  \<open>Account\<close> is what \<^verbatim>\<open>types.NewAccount()\<close> returns: the raw public key (32 bytes) and the
  raw private key (64 bytes). \<open>Keypair\<close> is the program's pair of encodings; \<open>Keypair{}\<close> is
  its zero value.
\<close>

record Account =
  AccountPublicKey :: "8 word list"
  AccountPrivateKey :: "8 word list"

record Keypair =
  Priv :: string
  Pub :: string

definition zeroKeypair :: Keypair where
  "zeroKeypair = \<lparr>Priv = [], Pub = []\<rparr>"

datatype ctx_error = Canceled | DeadlineExceeded

text \<open>
  A call runs the calling goroutine and \<open>workers\<close> worker goroutines. Each worker is at one of
  four places of the closure \<open>worker\<close>: at its \<open>select\<close>, in the \<open>default\<close> branch before the
  sample is drawn, at the send \<open>found <- Keypair{...}\<close> with the keypair it built, or returned.
\<close>

datatype wstate = AtSelect | InDefault | Sending Keypair | Exited

text \<open>
  The state shared by the goroutines of one call: the trimmed suffix, \<open>ctx.Err()\<close>
  (\<open>None\<close> while \<open>ctx.Done()\<close> is open), the buffer of the channel \<open>found\<close> (capacity 1),
  the workers, and the pair the call has returned (\<open>None\<close> while the caller has not left its
  \<open>select\<close>).
\<close>

record search =
  sfx :: string
  ctxErr :: "ctx_error option"
  found :: "Keypair list"
  goroutines :: "wstate list"
  returned :: "(Keypair \<times> ctx_error option) option"

text \<open>
  One step of worker \<open>i\<close>. At the \<open>select\<close> a closed \<open>ctx.Done()\<close> is the only ready case and
  the worker returns; otherwise \<open>default\<close> runs. In \<open>default\<close> the account \<open>acc\<close> is the one
  \<^verbatim>\<open>types.NewAccount()\<close> hands out. The send blocks while the buffer is full.
\<close>

definition workerStep :: "nat \<Rightarrow> Account \<Rightarrow> search \<Rightarrow> search" where
  "workerStep i acc s =
     (if i < length (goroutines s) then
        (case goroutines s ! i of
           AtSelect \<Rightarrow>
             (if ctxErr s \<noteq> None then s\<lparr>goroutines := (goroutines s)[i := Exited]\<rparr>
              else s\<lparr>goroutines := (goroutines s)[i := InDefault]\<rparr>)
         | InDefault \<Rightarrow>
             (let pub = Encode (AccountPublicKey acc) in
              if HasSuffix pub (sfx s)
              then s\<lparr>goroutines := (goroutines s)
                     [i := Sending \<lparr>Priv = Encode (AccountPrivateKey acc), Pub = pub\<rparr>]\<rparr>
              else s\<lparr>goroutines := (goroutines s)[i := AtSelect]\<rparr>)
         | Sending kp \<Rightarrow>
             (if length (found s) < 1
              then s\<lparr>found := found s @ [kp], goroutines := (goroutines s)[i := Exited]\<rparr>
              else s)
         | Exited \<Rightarrow> s)
      else s)"

text \<open>
  One step of the caller at its \<open>select\<close>: it blocks while neither case is ready; when both
  are, Go picks one at random, here \<open>pickDone\<close>. A caller that blocked is modelled as one
  that evaluates its \<open>select\<close> again at its next step. (In Go a caller parked in the
  \<open>select\<close> is woken with the case that became ready first; the model allows every such
  execution, and some more.)
\<close>

definition callerStep :: "bool \<Rightarrow> search \<Rightarrow> search" where
  "callerStep pickDone s =
     (case returned s of
        Some r \<Rightarrow> s
      | None \<Rightarrow>
          (case ctxErr s of
             None \<Rightarrow>
               (case found s of
                  [] \<Rightarrow> s
                | kp # q \<Rightarrow> s\<lparr>found := q, returned := Some (kp, None)\<rparr>)
           | Some e \<Rightarrow>
               (case found s of
                  [] \<Rightarrow> s\<lparr>returned := Some (zeroKeypair, Some e)\<rparr>
                | kp # q \<Rightarrow>
                    (if pickDone then s\<lparr>returned := Some (zeroKeypair, Some e)\<rparr>
                     else s\<lparr>found := q, returned := Some (kp, None)\<rparr>))))"

text \<open>
  A schedule is the list of steps the Go scheduler grants, in order. Cancellation of the
  context is an event of whoever holds its cancel function; only the first one counts.
\<close>

datatype gstep = Worker nat Account | Caller bool

datatype event = Sched gstep | Cancel ctx_error

fun gstepFun :: "gstep \<Rightarrow> search \<Rightarrow> search" where
  "gstepFun (Worker i acc) s = workerStep i acc s"
| "gstepFun (Caller pickDone) s = callerStep pickDone s"

fun eventStep :: "event \<Rightarrow> search \<Rightarrow> search" where
  "eventStep (Sched g) s = gstepFun g s"
| "eventStep (Cancel e) s = (case ctxErr s of None \<Rightarrow> s\<lparr>ctxErr := Some e\<rparr> | Some _ \<Rightarrow> s)"

definition runSearch :: "event list \<Rightarrow> search \<Rightarrow> search" where
  "runSearch es s = fold eventStep es s"

text \<open>
  The call itself: trim the suffix, make the channel, start \<open>workers\<close> goroutines (none when
  \<open>workers\<close> is not positive), then wait in the \<open>select\<close>. A worker that has not been started
  yet behaves as one that has not been scheduled yet, so all start at their \<open>select\<close>.
  \<open>ctx0\<close> is the state of the context at the call. The result is what the call has
  returned under the schedule, \<open>None\<close> if it has not returned.
\<close>

definition startSearch :: "ctx_error option \<Rightarrow> string \<Rightarrow> int \<Rightarrow> search" where
  "startSearch ctx0 suffix' workers =
     \<lparr>sfx = TrimSpace suffix', ctxErr = ctx0, found = [],
      goroutines = replicate (nat workers) AtSelect, returned = None\<rparr>"

definition generateVanityKeypair ::
  "ctx_error option \<Rightarrow> string \<Rightarrow> int \<Rightarrow> event list \<Rightarrow> (Keypair \<times> ctx_error option) option" where
  "generateVanityKeypair ctx0 suffix' workers es =
     returned (runSearch es (startSearch ctx0 suffix' workers))"

section \<open>The key store\<close>

text \<open>
  A row of the table \<open>token_key\<close>. \<open>CreatedAt\<close> is a time stamp; the zero time is \<open>0\<close>.
\<close>

record TokenKey =
  ID :: string
  PrivateKey :: string
  PublicKey :: string
  IsPicked :: bool
  CreatedAt :: nat

datatype db_error = ConnectionError | UniqueViolation

text \<open>
  \<open>countUnpicked\<close>: the number of rows with \<open>is_picked = false\<close>, or the error of the
  database. \<open>fault\<close> is the failure the database reports for reasons of its own (\<open>None\<close>
  when it answers).
\<close>

definition countUnpicked :: "db_error option \<Rightarrow> TokenKey list \<Rightarrow> db_error + int" where
  "countUnpicked fault rows =
     (case fault of
        Some err \<Rightarrow> Inl err
      | None \<Rightarrow> Inr (int (length (filter (\<lambda>k. \<not> IsPicked k) rows))))"

text \<open>
  \<^verbatim>\<open>db.Clauses(clause.OnConflict{Columns: public_key, DoNothing: true}).Create(&newKey)\<close>:
  an insert with \<open>ON CONFLICT (public_key) DO NOTHING\<close>. A row whose public key is stored
  already is skipped without an error. The other constraints the struct tags declare (the
  primary key \<open>id\<close>, the unique \<open>private_key\<close>) are not named by the clause and still raise.
  \<open>autoCreateTime\<close> stamps the new row with the current time \<open>now\<close>. The result is the
  error (\<open>None\<close> for \<open>nil\<close>) and the table.
\<close>

definition Create ::
  "db_error option \<Rightarrow> nat \<Rightarrow> TokenKey \<Rightarrow> TokenKey list \<Rightarrow> db_error option \<times> TokenKey list" where
  "Create fault now newKey rows =
     (case fault of
        Some err \<Rightarrow> (Some err, rows)
      | None \<Rightarrow>
          (if PublicKey newKey \<in> set (map PublicKey rows) then (None, rows)
           else if ID newKey \<in> set (map ID rows) \<or> PrivateKey newKey \<in> set (map PrivateKey rows)
           then (Some UniqueViolation, rows)
           else (None, rows @ [newKey\<lparr>CreatedAt := now\<rparr>])))"

text \<open>The row \<open>maintainUnpickedKeys\<close> builds from a keypair and a fresh UUID.\<close>

definition newTokenKey :: "string \<Rightarrow> Keypair \<Rightarrow> TokenKey" where
  "newTokenKey uuid kp =
     \<lparr>ID = uuid, PrivateKey = Priv kp, PublicKey = Pub kp, IsPicked = False, CreatedAt = 0\<rparr>"

text \<open>An external consumer picks the key with public key \<open>pub\<close>.\<close>

definition markPicked :: "string \<Rightarrow> TokenKey list \<Rightarrow> TokenKey list" where
  "markPicked pub rows = map (\<lambda>k. if PublicKey k = pub then k\<lparr>IsPicked := True\<rparr> else k) rows"

section \<open>The pool maintainer: \<open>maintainUnpickedKeys\<close>\<close>

text \<open>
  The loop never returns, so it is a machine that is stepped by the answers of its
  environment. Its control points are the calls it waits in: \<open>Checking\<close> (the count at the
  head of the outer loop), and inside the inner loop \<open>Searching c\<close> (the call of
  \<open>generateVanityKeypair\<close>, with the count \<open>c\<close> the loop holds), \<open>Inserting c kp\<close> (the insert
  of the keypair found) and \<open>Recounting newKey\<close> (the count after an insert).
\<close>

datatype pc = Checking | Searching int | Inserting int Keypair | Recounting TokenKey

type_synonym maint = "pc \<times> TokenKey list"

text \<open>What the loop does that can be observed: its calls, its log lines and its sleeps.\<close>

datatype action =
    CallCount
  | CallSearch
  | CallInsert TokenKey
  | Sleep int
  | LogCountError db_error
  | LogEnough int int int
  | LogBelow int int
  | LogGenError ctx_error
  | LogInsertError db_error
  | LogRecountError db_error
  | LogAdded string int
  | LogTargetReached int int

text \<open>
  The answers of the environment: the database's answer to a count; the schedule of the
  goroutines of one search (the context of that search is made by the loop and cancelled
  by it only after the call, so no cancellation is among its events); the UUID drawn, the
  current time and the database's answer to an insert; an external consumer picking a key.
\<close>

datatype reply =
    CountReply "db_error option"
  | SearchRun "gstep list"
  | InsertReply string nat "db_error option"
  | Consumer string

definition Second :: int where
  "Second = 1000000000"

text \<open>
  The head of the inner loop \<open>for c < int64(target)\<close>: another round, or the exit to the
  log line and the sleep after the loop.
\<close>

definition loopHead :: "int \<Rightarrow> int \<Rightarrow> int \<Rightarrow> pc \<times> action list" where
  "loopHead target sleepDur c =
     (if c < target then (Searching c, [])
      else (Checking, [LogTargetReached target sleepDur, Sleep sleepDur]))"

text \<open>
  One step of the loop: from the call it waits in, with the answer of the environment, to
  the next call. \<open>c \<ge> target\<close> compares two integers (\<open>int64(target)\<close> is \<open>target\<close> on a
  64-bit platform). A \<open>continue\<close> of the inner loop goes to its head; the \<open>break\<close> after a
  failed recount goes to the log line and the sleep after the loop. A search whose
  schedule has not let the call return leaves the loop waiting in the call. An answer that
  does not fit the call the loop waits in is ignored; a consumer can act at any time.
\<close>

fun step :: "int \<Rightarrow> string \<Rightarrow> int \<Rightarrow> int \<Rightarrow> maint \<Rightarrow> reply \<Rightarrow> maint \<times> action list" where
  "step target suffix' sleepDur workers (p, rows) (Consumer pub) = ((p, markPicked pub rows), [])"
| "step target suffix' sleepDur workers (Checking, rows) (CountReply fault) =
     (case countUnpicked fault rows of
        Inl err \<Rightarrow> ((Checking, rows), [CallCount, LogCountError err, Sleep (10 * Second)])
      | Inr c \<Rightarrow>
          (if c \<ge> target
           then ((Checking, rows), [CallCount, LogEnough c target sleepDur, Sleep sleepDur])
           else (case loopHead target sleepDur c of
                   (p, acts) \<Rightarrow> ((p, rows), [CallCount, LogBelow c target] @ acts))))"
| "step target suffix' sleepDur workers (Searching c, rows) (SearchRun sched) =
     (case generateVanityKeypair None suffix' workers (map Sched sched) of
        None \<Rightarrow> ((Searching c, rows), [])
      | Some (kp, Some err) \<Rightarrow>
          (case loopHead target sleepDur c of
             (p, acts) \<Rightarrow> ((p, rows), [CallSearch, LogGenError err, Sleep (1 * Second)] @ acts))
      | Some (kp, None) \<Rightarrow> ((Inserting c kp, rows), [CallSearch]))"
| "step target suffix' sleepDur workers (Inserting c kp, rows) (InsertReply uuid now fault) =
     (let newKey = newTokenKey uuid kp in
      case Create fault now newKey rows of
        (Some err, rows') \<Rightarrow>
          (case loopHead target sleepDur c of
             (p, acts) \<Rightarrow> ((p, rows'), [CallInsert newKey, LogInsertError err] @ acts))
      | (None, rows') \<Rightarrow> ((Recounting newKey, rows'), [CallInsert newKey]))"
| "step target suffix' sleepDur workers (Recounting newKey, rows) (CountReply fault) =
     (case countUnpicked fault rows of
        Inl err \<Rightarrow>
          ((Checking, rows),
           [CallCount, LogRecountError err, LogTargetReached target sleepDur, Sleep sleepDur])
      | Inr c \<Rightarrow>
          (case loopHead target sleepDur c of
             (p, acts) \<Rightarrow> ((p, rows), [CallCount, LogAdded (PublicKey newKey) c] @ acts)))"
| "step target suffix' sleepDur workers m r = (m, [])"

fun run :: "int \<Rightarrow> string \<Rightarrow> int \<Rightarrow> int \<Rightarrow> maint \<Rightarrow> reply list \<Rightarrow> maint \<times> action list" where
  "run target suffix' sleepDur workers m [] = (m, [])"
| "run target suffix' sleepDur workers m (r # rs) =
     (case step target suffix' sleepDur workers m r of
        (m', acts) \<Rightarrow>
          (case run target suffix' sleepDur workers m' rs of
             (m'', acts') \<Rightarrow> (m'', acts @ acts')))"

text \<open>
  \<open>maintainUnpickedKeys\<close> starts at the count, on the table \<open>db\<close>; the result is where the
  loop stands after the answers \<open>rs\<close>, the table, and what the loop did.
\<close>

definition maintainUnpickedKeys ::
  "TokenKey list \<Rightarrow> int \<Rightarrow> string \<Rightarrow> int \<Rightarrow> int \<Rightarrow> reply list \<Rightarrow> maint \<times> action list" where
  "maintainUnpickedKeys db target suffix' sleepDur workers rs =
     run target suffix' sleepDur workers (Checking, db) rs"

section \<open>Predicates on the states of a search\<close>

text \<open>
  What every keypair in flight satisfies: a keypair a worker is about to send, one in the
  channel and one the call has returned all end with the trimmed suffix; a return with an
  error carries the zero keypair and the error of the context.
\<close>

fun sendsOk :: "string \<Rightarrow> wstate \<Rightarrow> bool" where
  "sendsOk t (Sending kp) = HasSuffix (Pub kp) t"
| "sendsOk t w = True"

fun resultOk ::
  "string \<Rightarrow> ctx_error option \<Rightarrow> (Keypair \<times> ctx_error option) option \<Rightarrow> bool" where
  "resultOk t c None = True"
| "resultOk t c (Some (kp, None)) = HasSuffix (Pub kp) t"
| "resultOk t c (Some (kp, Some e)) = (kp = zeroKeypair \<and> c = Some e)"

definition returnOk :: "search \<Rightarrow> bool" where
  "returnOk s = resultOk (sfx s) (ctxErr s) (returned s)"

definition searchInv :: "search \<Rightarrow> bool" where
  "searchInv s =
     (list_all (\<lambda>kp. HasSuffix (Pub kp) (sfx s)) (found s) \<and>
      list_all (sendsOk (sfx s)) (goroutines s) \<and> returnOk s)"

text \<open>
  A worker is \<open>idle\<close> when it has no iteration under way: it is at its \<open>select\<close> or has
  returned. \<open>cancelledIdle e\<close>: the context was cancelled with \<open>e\<close>, the channel is empty,
  every worker is idle, and the caller has not returned or has returned the cancellation.
\<close>

definition idle :: "wstate \<Rightarrow> bool" where
  "idle w = (w = AtSelect \<or> w = Exited)"

definition cancelledIdle :: "ctx_error \<Rightarrow> search \<Rightarrow> bool" where
  "cancelledIdle e s =
     (ctxErr s = Some e \<and> found s = [] \<and> list_all idle (goroutines s) \<and>
      (returned s = None \<or> returned s = Some (zeroKeypair, Some e)))"

text \<open>
  Worker \<open>i\<close> is a \<open>blockedSender\<close> when it stands at its send with the buffer full after the
  caller has returned: nobody receives from the channel any more.
\<close>

definition blockedSender :: "nat \<Rightarrow> Keypair \<Rightarrow> search \<Rightarrow> bool" where
  "blockedSender i kp s =
     (returned s \<noteq> None \<and> length (found s) = 1 \<and> i < length (goroutines s) \<and>
      goroutines s ! i = Sending kp)"


fun isSending :: "wstate \<Rightarrow> bool" where
  "isSending (Sending kp) = True"
| "isSending w = False"


text \<open>
  No match so far: a search is \<open>matchFree\<close> when the channel is empty and no worker stands
  at its send, and \<open>noMatchYet\<close> when besides that the context is open and the caller has not
  returned. An event \<open>drawsMatch\<close> in a state when it is the step of a worker in its
  \<open>default\<close> branch that is handed an account whose public-key encoding ends with the
  suffix. \<open>noLateMatch es s\<close>: on the schedule \<open>es\<close> from the state \<open>s\<close> no step draws a match.
  An event \<open>takesDelivery\<close> in a state when it is the step of the caller that receives
  from the channel although the other case may be ready too. \<open>noLateDelivery es s\<close>: on the
  schedule \<open>es\<close> from the state \<open>s\<close> the caller's \<open>select\<close> never takes a delivery.
\<close>

definition matchFree :: "search \<Rightarrow> bool" where
  "matchFree s = (found s = [] \<and> list_all (\<lambda>w. \<not> isSending w) (goroutines s))"

definition noMatchYet :: "search \<Rightarrow> bool" where
  "noMatchYet s = (ctxErr s = None \<and> returned s = None \<and> matchFree s)"

fun drawsMatch :: "event \<Rightarrow> search \<Rightarrow> bool" where
  "drawsMatch (Sched (Worker i acc)) s =
     (i < length (goroutines s) \<and> goroutines s ! i = InDefault \<and>
      HasSuffix (Encode (AccountPublicKey acc)) (sfx s))"
| "drawsMatch ev s = False"

fun noLateMatch :: "event list \<Rightarrow> search \<Rightarrow> bool" where
  "noLateMatch [] s = True"
| "noLateMatch (ev # es) s = (\<not> drawsMatch ev s \<and> noLateMatch es (eventStep ev s))"

fun takesDelivery :: "event \<Rightarrow> search \<Rightarrow> bool" where
  "takesDelivery (Sched (Caller pickDone)) s =
     (\<not> pickDone \<and> returned s = None \<and> found s \<noteq> [])"
| "takesDelivery ev s = False"

fun noLateDelivery :: "event list \<Rightarrow> search \<Rightarrow> bool" where
  "noLateDelivery [] s = True"
| "noLateDelivery (ev # es) s = (\<not> takesDelivery ev s \<and> noLateDelivery es (eventStep ev s))"

text \<open>
  After a cancellation with \<open>e\<close>: \<open>cancelledFree\<close> when no match exists and the caller has
  not returned or has returned the cancellation; \<open>cancelledOpen\<close> without the condition on
  the matches.
\<close>

definition cancelledOpen :: "ctx_error \<Rightarrow> search \<Rightarrow> bool" where
  "cancelledOpen e s =
     (ctxErr s = Some e \<and> (returned s = None \<or> returned s = Some (zeroKeypair, Some e)))"

definition cancelledFree :: "ctx_error \<Rightarrow> search \<Rightarrow> bool" where
  "cancelledFree e s = (cancelledOpen e s \<and> matchFree s)"




section \<open>Predicates on the states of the maintainer\<close>

text \<open>
  Inside the inner loop the count the loop holds is below the target: the loop is entered
  and re-entered only through its condition.
\<close>

fun pcOk :: "int \<Rightarrow> pc \<Rightarrow> bool" where
  "pcOk T (Searching c) = (c < T)"
| "pcOk T (Inserting c kp) = (c < T)"
| "pcOk T Checking = True"
| "pcOk T (Recounting k) = True"

definition unpicked :: "TokenKey list \<Rightarrow> int" where
  "unpicked rows = int (length (filter (\<lambda>k. \<not> IsPicked k) rows))"

section \<open>Sample data\<close>

text \<open>
  Accounts whose public keys encode to \<open>1...1ponz\<close> (the default suffix of the program) and
  to \<open>1...12\<close>, \<open>1...13\<close>, ...; rows of the table; a schedule on which three workers find a
  match each before the caller receives the first.
\<close>

definition ponzAccount :: Account where
  "ponzAccount =
     \<lparr>AccountPublicKey = replicate 29 0 @ [0x8E, 0x54, 0x3B],
      AccountPrivateKey = replicate 61 0 @ [0x8E, 0x54, 0x3B]\<rparr>"

definition ponzKeypair :: Keypair where
  "ponzKeypair =
     \<lparr>Priv = ''1111111111111111111111111111111111111111111111111111111111111ponz'',
      Pub = ''11111111111111111111111111111ponz''\<rparr>"

definition sampleAccount :: "8 word \<Rightarrow> Account" where
  "sampleAccount b =
     \<lparr>AccountPublicKey = replicate 31 0 @ [b], AccountPrivateKey = replicate 63 0 @ [b]\<rparr>"

definition sampleKeypair :: "char \<Rightarrow> Keypair" where
  "sampleKeypair c = \<lparr>Priv = replicate 63 (CHR ''1'') @ [c], Pub = replicate 31 (CHR ''1'') @ [c]\<rparr>"

definition sampleRow :: "string \<Rightarrow> string \<Rightarrow> TokenKey" where
  "sampleRow uuid pub =
     \<lparr>ID = uuid, PrivateKey = ''priv-'' @ pub, PublicKey = pub, IsPicked = False, CreatedAt = 1\<rparr>"

definition ponzRow :: TokenKey where
  "ponzRow =
     \<lparr>ID = ''6ba7b810-9dad-11d1-80b4-00c04fd430c8'',
      PrivateKey = ''1111111111111111111111111111111111111111111111111111111111111ponz'',
      PublicKey = ''11111111111111111111111111111ponz'', IsPicked = False, CreatedAt = 7\<rparr>"

definition fiveRows :: "TokenKey list" where
  "fiveRows =
     map (\<lambda>n. sampleRow (''id-'' @ n) (n @ ''ponz'')) [''a'', ''b'', ''c'', ''d'', ''e'']"

definition ponzSearch :: "gstep list" where
  "ponzSearch =
     [Worker 0 (sampleAccount 1), Worker 0 (sampleAccount 1), Worker 1 ponzAccount,
      Worker 1 ponzAccount, Worker 1 ponzAccount, Caller False]"

definition threeMatches :: "event list" where
  "threeMatches =
     [Sched (Worker 0 (sampleAccount 1)), Sched (Worker 0 (sampleAccount 1)),
      Sched (Worker 1 (sampleAccount 2)), Sched (Worker 1 (sampleAccount 2)),
      Sched (Worker 2 (sampleAccount 3)), Sched (Worker 2 (sampleAccount 3)),
      Sched (Worker 0 (sampleAccount 1)), Sched (Caller False),
      Sched (Worker 1 (sampleAccount 2))]"

section \<open>The suffix test\<close>

text \<open>
  Claim C10. The hand-written tail comparison of the older variant and
  \<^verbatim>\<open>strings.HasSuffix\<close> of the current one are the same predicate: for all strings
  \<open>pub\<close> and \<open>suf\<close> the guarded comparison holds exactly when \<open>pub\<close> ends with \<open>suf\<close>.
\<close>

theorem guarded_tail_match_iff_HasSuffix:
  "guardedTailMatch pub suf = HasSuffix pub suf"
proof
  assume "guardedTailMatch pub suf"
  then have "drop (length pub - length suf) pub = suf"
    by (simp add: guardedTailMatch_def split: if_splits)
  then have "suffix suf pub"
    using suffix_drop [of "length pub - length suf" pub] by simp
  then show "HasSuffix pub suf" by (simp add: HasSuffix_def)
next
  assume "HasSuffix pub suf"
  then obtain zs where "pub = zs @ suf"
    by (auto simp: HasSuffix_def suffix_def)
  then show "guardedTailMatch pub suf"
    by (simp add: guardedTailMatch_def)
qed

text \<open>
  The two predicates on the public key \<open>1...1ponz\<close>: both accept the suffix \<open>ponz\<close>, both
  reject \<open>Ponz\<close> and a suffix longer than the key.
\<close>

theorem guarded_tail_match_iff_HasSuffix_witness:
  "guardedTailMatch (Pub ponzKeypair) ''ponz'' \<and> HasSuffix (Pub ponzKeypair) ''ponz'' \<and>
   \<not> guardedTailMatch (Pub ponzKeypair) ''Ponz'' \<and> \<not> HasSuffix (Pub ponzKeypair) ''Ponz'' \<and>
   \<not> guardedTailMatch ''nz'' ''ponz'' \<and> \<not> HasSuffix ''nz'' ''ponz''"
proof -
  have "guardedTailMatch (Pub ponzKeypair) ''ponz''" by code_simp
  moreover have "\<not> guardedTailMatch (Pub ponzKeypair) ''Ponz''" by code_simp
  moreover have "\<not> guardedTailMatch ''nz'' ''ponz''" by code_simp
  ultimately show ?thesis
    using guarded_tail_match_iff_HasSuffix [of "Pub ponzKeypair" "''ponz''"]
      guarded_tail_match_iff_HasSuffix [of "Pub ponzKeypair" "''Ponz''"]
      guarded_tail_match_iff_HasSuffix [of "''nz''" "''ponz''"]
    by simp
qed

section \<open>Base 58 and trimming\<close>














section \<open>Schedules\<close>

lemma runSearch_Nil: "runSearch [] s = s"
  by (simp add: runSearch_def)

lemma runSearch_Cons: "runSearch (e # es) s = runSearch es (eventStep e s)"
  by (simp add: runSearch_def)

lemma runSearch_append: "runSearch (es @ es') s = runSearch es' (runSearch es s)"
  by (simp add: runSearch_def)

lemma list_all_update: "list_all P xs \<Longrightarrow> P x \<Longrightarrow> list_all P (xs[i := x])"
  by (induction xs arbitrary: i) (auto split: nat.splits)

lemma list_all_nth: "list_all P xs \<Longrightarrow> i < length xs \<Longrightarrow> P (xs ! i)"
  by (simp add: list_all_length)

subsection \<open>What a step leaves alone\<close>

lemma sfx_workerStep: "sfx (workerStep i acc s) = sfx s"
  by (simp add: workerStep_def Let_def split: wstate.splits)

lemma sfx_callerStep: "sfx (callerStep b s) = sfx s"
  by (simp add: callerStep_def split: option.splits list.splits)

lemma sfx_eventStep: "sfx (eventStep e s) = sfx s"
proof (cases e)
  case (Sched g)
  then show ?thesis by (cases g) (simp_all add: sfx_workerStep sfx_callerStep)
next
  case (Cancel c)
  then show ?thesis by (simp split: option.splits)
qed

lemma sfx_runSearch: "sfx (runSearch es s) = sfx s"
  by (induction es arbitrary: s) (simp_all add: runSearch_Nil runSearch_Cons sfx_eventStep)





lemma ctxErr_workerStep: "ctxErr (workerStep i acc s) = ctxErr s"
  by (simp add: workerStep_def Let_def split: wstate.splits)

lemma ctxErr_callerStep: "ctxErr (callerStep b s) = ctxErr s"
  by (simp add: callerStep_def split: option.splits list.splits)

lemma ctxErr_gstepFun: "ctxErr (gstepFun g s) = ctxErr s"
  by (cases g) (simp_all add: ctxErr_workerStep ctxErr_callerStep)

lemma ctxErr_run: "ctxErr (runSearch (map Sched gs) s) = ctxErr s"
  by (induction gs arbitrary: s) (simp_all add: runSearch_Nil runSearch_Cons ctxErr_gstepFun)

subsection \<open>Once the call has returned, its result stays\<close>

lemma returned_callerStep_stable: "returned s = Some r \<Longrightarrow> returned (callerStep b s) = Some r"
  by (simp add: callerStep_def)

lemma returned_workerStep: "returned (workerStep i acc s) = returned s"
  by (simp add: workerStep_def Let_def split: wstate.splits)

lemma returned_eventStep_stable:
  assumes "returned s = Some r"
  shows "returned (eventStep ev s) = Some r"
proof (cases ev)
  case (Sched g)
  then show ?thesis using assms
    by (cases g) (simp_all add: returned_workerStep returned_callerStep_stable)
next
  case (Cancel c)
  then show ?thesis using assms by (simp split: option.splits)
qed

lemma returned_runSearch_stable: "returned s = Some r \<Longrightarrow> returned (runSearch es s) = Some r"
  by (induction es arbitrary: s)
    (simp_all add: runSearch_Nil runSearch_Cons returned_eventStep_stable)

section \<open>Every keypair in flight matches\<close>

lemma searchInv_start: "searchInv (startSearch ctx0 S W)"
  by (simp add: searchInv_def startSearch_def returnOk_def list_all_length)

lemma returnOk_same:
  "returnOk (s\<lparr>goroutines := g\<rparr>) = returnOk s"
  "returnOk (s\<lparr>found := f\<rparr>) = returnOk s"
  by (simp_all add: returnOk_def)

lemma searchInv_workerStep:
  assumes "searchInv s"
  shows "searchInv (workerStep i acc s)"
proof (cases "i < length (goroutines s)")
  case False
  then show ?thesis using assms by (simp add: workerStep_def)
next
  case True
  note i = this
  show ?thesis
  proof (cases "goroutines s ! i")
    case AtSelect
    then show ?thesis using assms i
      by (simp add: workerStep_def searchInv_def returnOk_same list_all_update)
  next
    case InDefault
    then show ?thesis using assms i
      by (simp add: workerStep_def searchInv_def returnOk_same list_all_update Let_def)
  next
    case (Sending kp)
    from assms i have "sendsOk (sfx s) (goroutines s ! i)"
      by (simp add: searchInv_def list_all_nth)
    with Sending have "HasSuffix (Pub kp) (sfx s)" by simp
    with Sending show ?thesis using assms i
      by (simp add: workerStep_def searchInv_def returnOk_same list_all_update)
  next
    case Exited
    then show ?thesis using assms i by (simp add: workerStep_def)
  qed
qed

lemma searchInv_callerStep:
  assumes "searchInv s"
  shows "searchInv (callerStep b s)"
proof (cases "returned s")
  case (Some r)
  then show ?thesis using assms by (simp add: callerStep_def)
next
  case None
  note ret = this
  show ?thesis
  proof (cases "found s")
    case Nil
    then show ?thesis using assms ret
      by (cases "ctxErr s") (simp_all add: callerStep_def searchInv_def returnOk_def)
  next
    case (Cons kp q)
    then show ?thesis using assms ret
      by (cases "ctxErr s") (simp_all add: callerStep_def searchInv_def returnOk_def)
  qed
qed

lemma resultOk_ctx_None: "resultOk t None r \<Longrightarrow> resultOk t c r"
  by (cases "(t, None :: ctx_error option, r)" rule: resultOk.cases) simp_all

lemma searchInv_cancel:
  assumes "searchInv s"
  shows "searchInv (eventStep (Cancel e) s)"
proof (cases "ctxErr s")
  case (Some c)
  then show ?thesis using assms by simp
next
  case None
  then show ?thesis using assms
    by (simp add: searchInv_def returnOk_def resultOk_ctx_None)
qed

lemma searchInv_eventStep:
  assumes "searchInv s"
  shows "searchInv (eventStep e s)"
proof (cases e)
  case (Sched g)
  then show ?thesis using assms
    by (cases g) (simp_all add: searchInv_workerStep searchInv_callerStep)
next
  case (Cancel c)
  then show ?thesis using assms searchInv_cancel by simp
qed

lemma searchInv_runSearch: "searchInv s \<Longrightarrow> searchInv (runSearch es s)"
  by (induction es arbitrary: s) (simp_all add: runSearch_Nil runSearch_Cons searchInv_eventStep)

lemma returnOk_call: "returnOk (runSearch es (startSearch ctx0 S W))"
proof -
  have "searchInv (runSearch es (startSearch ctx0 S W))"
    by (simp add: searchInv_runSearch searchInv_start)
  then show ?thesis by (simp add: searchInv_def)
qed

lemma returned_key_matches:
  assumes "generateVanityKeypair ctx0 S W es = Some (kp, None)"
  shows "HasSuffix (Pub kp) (TrimSpace S)"
proof -
  let ?s = "runSearch es (startSearch ctx0 S W)"
  have "returnOk ?s" by (rule returnOk_call)
  moreover have "returned ?s = Some (kp, None)"
    using assms by (simp add: generateVanityKeypair_def)
  ultimately have "HasSuffix (Pub kp) (sfx ?s)" by (simp add: returnOk_def)
  then show ?thesis by (simp add: sfx_runSearch startSearch_def)
qed

lemma returned_error_zero:
  assumes "generateVanityKeypair ctx0 S W es = Some (kp, Some err)"
  shows "kp = zeroKeypair \<and> ctxErr (runSearch es (startSearch ctx0 S W)) = Some err"
proof -
  let ?s = "runSearch es (startSearch ctx0 S W)"
  have "returnOk ?s" by (rule returnOk_call)
  moreover have "returned ?s = Some (kp, Some err)"
    using assms by (simp add: generateVanityKeypair_def)
  ultimately show ?thesis by (simp add: returnOk_def)
qed

lemma open_context_no_error:
  "generateVanityKeypair None S W (map Sched gs) \<noteq> Some (kp, Some err)"
proof
  assume "generateVanityKeypair None S W (map Sched gs) = Some (kp, Some err)"
  then have "ctxErr (runSearch (map Sched gs) (startSearch None S W)) = Some err"
    by (simp add: returned_error_zero)
  moreover have "ctxErr (runSearch (map Sched gs) (startSearch None S W)) = None"
    by (simp add: ctxErr_run startSearch_def)
  ultimately show False by simp
qed

section \<open>Evaluating the sample data\<close>

lemma digits58_numeral: "digits58 (numeral k) n = digits58 (pred_numeral k) (n div 58) @ [n mod 58]"
proof -
  have "numeral k = Suc (pred_numeral k)" by (simp add: numeral_eq_Suc)
  then show ?thesis by (simp only: digits58.simps)
qed

lemma bytesToNat_zeros: "bytesToNat (replicate n 0 @ bs) = bytesToNat bs"
  by (induction n) (simp_all add: bytesToNat_def)

lemma takeWhile_zeros:
  "b \<noteq> 0 \<Longrightarrow> takeWhile (\<lambda>x. x = 0) (replicate n (0 :: 8 word) @ b # bs) = replicate n 0"
  by (induction n) simp_all

lemma Encode_zeros:
  assumes "b \<noteq> 0"
  shows "Encode (replicate n 0 @ b # bs) =
    replicate n (CHR ''1'') @
    map (\<lambda>d. b58Alphabet ! d)
      (dropWhile (\<lambda>d. d = 0) (digits58 (Suc (length bs) * 555 div 406 + 1) (bytesToNat (b # bs))))"
  using assms by (simp add: Encode_def Let_def takeWhile_zeros bytesToNat_zeros del: digits58.simps)

lemma Encode_ponz_pub: "Encode (AccountPublicKey ponzAccount) = Pub ponzKeypair"
proof -
  have "Encode (replicate 29 0 @ [0x8E, 0x54, 0x3B]) = replicate 29 (CHR ''1'') @ ''ponz''"
    by (subst Encode_zeros) (simp_all add: bytesToNat_def b58Alphabet_def digits58_numeral)
  moreover have "replicate 29 (CHR ''1'') @ ''ponz'' = ''11111111111111111111111111111ponz''"
    by code_simp
  ultimately show ?thesis by (simp add: ponzAccount_def ponzKeypair_def)
qed

lemma Encode_ponz_priv: "Encode (AccountPrivateKey ponzAccount) = Priv ponzKeypair"
proof -
  have "Encode (replicate 61 0 @ [0x8E, 0x54, 0x3B]) = replicate 61 (CHR ''1'') @ ''ponz''"
    by (subst Encode_zeros) (simp_all add: bytesToNat_def b58Alphabet_def digits58_numeral)
  moreover have "replicate 61 (CHR ''1'') @ ''ponz'' =
      ''1111111111111111111111111111111111111111111111111111111111111ponz''"
    by code_simp
  ultimately show ?thesis by (simp add: ponzAccount_def ponzKeypair_def)
qed


lemma Encode_single:
  assumes "b \<noteq> 0" and "unat b < 58"
  shows "Encode (replicate n 0 @ [b]) = replicate n (CHR ''1'') @ [b58Alphabet ! unat b]"
proof -
  have "unat b \<noteq> 0" using assms(1) by (simp add: unat_eq_0)
  moreover have "digits58 (Suc (Suc 0)) (unat b) = [0, unat b]" using assms(2) by simp
  ultimately show ?thesis
    using assms(1) by (simp add: Encode_zeros bytesToNat_def del: digits58.simps)
qed

lemma Encode_sample:
  assumes "b \<noteq> 0" and "unat b < 58"
  shows "Encode (AccountPublicKey (sampleAccount b)) = Pub (sampleKeypair (b58Alphabet ! unat b))"
    and "Encode (AccountPrivateKey (sampleAccount b)) = Priv (sampleKeypair (b58Alphabet ! unat b))"
  using assms by (simp_all add: sampleAccount_def sampleKeypair_def Encode_single)

lemma Encode_sample_1:
  "Encode (AccountPublicKey (sampleAccount 1)) = Pub (sampleKeypair (CHR ''2''))"
  "Encode (AccountPrivateKey (sampleAccount 1)) = Priv (sampleKeypair (CHR ''2''))"
  using Encode_sample [of 1] by (simp_all add: b58Alphabet_def)

lemma Encode_sample_2:
  "Encode (AccountPublicKey (sampleAccount 2)) = Pub (sampleKeypair (CHR ''3''))"
  "Encode (AccountPrivateKey (sampleAccount 2)) = Priv (sampleKeypair (CHR ''3''))"
  using Encode_sample [of 2] by (simp_all add: b58Alphabet_def)

lemma Encode_sample_3:
  "Encode (AccountPublicKey (sampleAccount 3)) = Pub (sampleKeypair (CHR ''4''))"
  "Encode (AccountPrivateKey (sampleAccount 3)) = Priv (sampleKeypair (CHR ''4''))"
  using Encode_sample [of 3] by (simp_all add: b58Alphabet_def)

lemma HasSuffix_Nil: "HasSuffix s []"
  by (simp add: HasSuffix_def)

lemma ponz_matches: "HasSuffix (Pub ponzKeypair) ''ponz''"
  by code_simp

lemma sample_no_ponz: "c \<noteq> CHR ''z'' \<Longrightarrow> \<not> HasSuffix (Pub (sampleKeypair c)) ''ponz''"
  by (auto simp: HasSuffix_def sampleKeypair_def suffix_to_prefix)

lemma TrimSpace_ponz: "TrimSpace ''ponz'' = ''ponz''" "TrimSpace '' ponz'' = ''ponz''" "TrimSpace [] = []"
  by code_simp+

lemma replicate_few:
  "replicate 1 x = [x]" "replicate 2 x = [x, x]" "replicate 3 x = [x, x, x]"
  by (simp_all add: numeral_2_eq_2 numeral_3_eq_3)

lemmas search_eval = replicate_few generateVanityKeypair_def runSearch_def startSearch_def workerStep_def
  callerStep_def Let_def Encode_ponz_pub Encode_ponz_priv Encode_sample_1 Encode_sample_2
  Encode_sample_3 HasSuffix_Nil ponz_matches sample_no_ponz TrimSpace_ponz

section \<open>What a successful search returns\<close>

text \<open>
  Claim C1, amended. The suffix is trimmed before the search (\<^verbatim>\<open>strings.TrimSpace\<close>), so
  what holds for every suffix \<open>S\<close>, every worker count, every state of the context and
  every schedule is: a keypair returned by a successful call (error \<open>nil\<close>) has a public-key
  encoding that ends with \<open>TrimSpace S\<close>, byte for byte. For a suffix without leading or
  trailing white space that is \<open>S\<close> itself.
\<close>

theorem found_key_ends_with_trimmed_suffix:
  assumes "generateVanityKeypair ctx0 S W es = Some (kp, None)"
  shows "HasSuffix (Pub kp) (TrimSpace S)"
  using assms by (rule returned_key_matches)

text \<open>
  The theorem at the default suffix \<open>ponz\<close> with two workers: worker 0 draws a key that does
  not match, worker 1 draws \<open>1...1ponz\<close>, sends it, and the caller receives it.
\<close>

theorem found_key_ends_with_trimmed_suffix_witness:
  "generateVanityKeypair None ''ponz'' 2 (map Sched ponzSearch) = Some (ponzKeypair, None) \<and>
   HasSuffix (Pub ponzKeypair) (TrimSpace ''ponz'') \<and> TrimSpace ''ponz'' = ''ponz''"
proof -
  have r: "generateVanityKeypair None ''ponz'' 2 (map Sched ponzSearch) = Some (ponzKeypair, None)"
    by (simp add: search_eval ponzSearch_def)
  from found_key_ends_with_trimmed_suffix [OF r] r show ?thesis
    by (simp add: TrimSpace_ponz)
qed

text \<open>
  Claim C1 as stated fails for a suffix with white space around it. With the suffix
  \<open>" ponz"\<close> (a leading blank) the call searches for \<open>ponz\<close> and returns the key
  \<open>1...1ponz\<close>, whose encoding does not end with \<open>" ponz"\<close>.
\<close>

theorem found_key_ends_with_suffix_counterexample:
  "generateVanityKeypair None '' ponz'' 2 (map Sched ponzSearch) = Some (ponzKeypair, None) \<and>
   \<not> HasSuffix (Pub ponzKeypair) '' ponz''"
proof -
  have "\<not> HasSuffix (Pub ponzKeypair) '' ponz''" by code_simp
  then show ?thesis by (simp add: search_eval ponzSearch_def)
qed

section \<open>Cancellation\<close>

lemma cancelledIdle_workerStep:
  assumes "cancelledIdle e s"
  shows "cancelledIdle e (workerStep i acc s)"
proof (cases "i < length (goroutines s)")
  case False
  then show ?thesis using assms by (simp add: workerStep_def)
next
  case True
  with assms have "idle (goroutines s ! i)"
    by (simp add: cancelledIdle_def list_all_nth)
  then consider "goroutines s ! i = AtSelect" | "goroutines s ! i = Exited"
    by (auto simp: idle_def)
  then show ?thesis
  proof cases
    case 1
    then show ?thesis using assms True
      by (simp add: workerStep_def cancelledIdle_def list_all_update idle_def)
  next
    case 2
    then show ?thesis using assms True by (simp add: workerStep_def)
  qed
qed

lemma cancelledIdle_callerStep:
  assumes "cancelledIdle e s"
  shows "cancelledIdle e (callerStep b s)"
proof (cases "returned s")
  case None
  then show ?thesis using assms by (simp add: callerStep_def cancelledIdle_def)
next
  case (Some r)
  then show ?thesis using assms by (simp add: callerStep_def)
qed

lemma cancelledIdle_eventStep:
  assumes "cancelledIdle e s"
  shows "cancelledIdle e (eventStep ev s)"
proof (cases ev)
  case (Sched g)
  then show ?thesis using assms
    by (cases g) (simp_all add: cancelledIdle_workerStep cancelledIdle_callerStep)
next
  case (Cancel c)
  then show ?thesis using assms by (simp add: cancelledIdle_def)
qed

lemma cancelledIdle_runSearch: "cancelledIdle e s \<Longrightarrow> cancelledIdle e (runSearch es s)"
  by (induction es arbitrary: s)
    (simp_all add: runSearch_Nil runSearch_Cons cancelledIdle_eventStep)

lemma cancelledIdle_caller_returns:
  assumes "cancelledIdle e s"
  shows "returned (callerStep b s) = Some (zeroKeypair, Some e)"
proof (cases "returned s")
  case None
  then show ?thesis using assms by (simp add: callerStep_def cancelledIdle_def)
next
  case (Some r)
  then show ?thesis using assms by (simp add: callerStep_def cancelledIdle_def)
qed

lemma cancelledIdle_run_caller:
  assumes "cancelledIdle e s" and "Sched (Caller b) \<in> set es"
  shows "returned (runSearch es s) = Some (zeroKeypair, Some e)"
proof -
  from assms(2) obtain es1 es2 where es: "es = es1 @ Sched (Caller b) # es2"
    by (auto dest: split_list)
  have "cancelledIdle e (runSearch es1 s)"
    using assms(1) by (rule cancelledIdle_runSearch)
  then have "returned (callerStep b (runSearch es1 s)) = Some (zeroKeypair, Some e)"
    by (rule cancelledIdle_caller_returns)
  then show ?thesis
    by (simp add: es runSearch_append runSearch_Cons returned_runSearch_stable)
qed

lemma cancelledIdle_start: "cancelledIdle e (startSearch (Some e) S W)"
  by (simp add: cancelledIdle_def startSearch_def idle_def list_all_length)

lemma noLateMatch_append:
  "noLateMatch (es @ es') s = (noLateMatch es s \<and> noLateMatch es' (runSearch es s))"
  by (induction es arbitrary: s) (simp_all add: runSearch_Nil runSearch_Cons)

lemma matchFree_workerStep:
  assumes "matchFree s" and "\<not> drawsMatch (Sched (Worker i acc)) s"
  shows "matchFree (workerStep i acc s)"
proof (cases "i < length (goroutines s)")
  case False
  then show ?thesis using assms(1) by (simp add: workerStep_def)
next
  case True
  note i = this
  from assms(1) i have ns: "\<not> isSending (goroutines s ! i)"
    by (simp add: matchFree_def list_all_length)
  show ?thesis
  proof (cases "goroutines s ! i")
    case AtSelect
    then show ?thesis using assms(1) i
      by (simp add: workerStep_def matchFree_def list_all_update)
  next
    case InDefault
    with assms(2) i have "\<not> HasSuffix (Encode (AccountPublicKey acc)) (sfx s)" by simp
    with InDefault show ?thesis using assms(1) i
      by (simp add: workerStep_def matchFree_def list_all_update Let_def)
  next
    case (Sending kp)
    with ns show ?thesis by simp
  next
    case Exited
    then show ?thesis using assms(1) i by (simp add: workerStep_def)
  qed
qed

lemma matchFree_callerStep: "matchFree s \<Longrightarrow> matchFree (callerStep b s)"
  by (cases "returned s"; cases "ctxErr s") (simp_all add: callerStep_def matchFree_def)

lemma matchFree_eventStep:
  assumes "matchFree s" and "\<not> drawsMatch ev s"
  shows "matchFree (eventStep ev s)"
proof (cases ev)
  case (Sched g)
  show ?thesis
  proof (cases g)
    case (Worker i acc)
    with Sched assms show ?thesis by (simp add: matchFree_workerStep)
  next
    case (Caller b)
    with Sched assms(1) show ?thesis by (simp add: matchFree_callerStep)
  qed
next
  case (Cancel c)
  then show ?thesis using assms(1) by (cases "ctxErr s") (simp_all add: matchFree_def)
qed

lemma cancelledOpen_workerStep: "cancelledOpen e s \<Longrightarrow> cancelledOpen e (workerStep i acc s)"
  by (simp add: cancelledOpen_def ctxErr_workerStep returned_workerStep)

lemma cancelledOpen_cancel: "cancelledOpen e s \<Longrightarrow> cancelledOpen e (eventStep (Cancel c) s)"
  by (auto simp: cancelledOpen_def)

lemma cancelledFree_callerStep:
  assumes "cancelledFree e s"
  shows "cancelledOpen e (callerStep b s)"
    and "returned (callerStep b s) = Some (zeroKeypair, Some e)"
  using assms
  by (cases "returned s"; simp add: callerStep_def cancelledFree_def cancelledOpen_def matchFree_def)+

lemma cancelledFree_eventStep:
  assumes "cancelledFree e s" and "\<not> drawsMatch ev s"
  shows "cancelledFree e (eventStep ev s)"
proof -
  from assms have m: "matchFree (eventStep ev s)"
    by (simp add: cancelledFree_def matchFree_eventStep)
  have "cancelledOpen e (eventStep ev s)"
  proof (cases ev)
    case (Sched g)
    show ?thesis
    proof (cases g)
      case (Worker i acc)
      with Sched assms(1) show ?thesis by (simp add: cancelledFree_def cancelledOpen_workerStep)
    next
      case (Caller b)
      with Sched assms(1) show ?thesis by (simp add: cancelledFree_callerStep)
    qed
  next
    case (Cancel c)
    with assms(1) show ?thesis by (simp add: cancelledFree_def cancelledOpen_cancel del: eventStep.simps)
  qed
  with m show ?thesis by (simp add: cancelledFree_def)
qed

lemma cancelledFree_runSearch:
  "cancelledFree e s \<Longrightarrow> noLateMatch es s \<Longrightarrow> cancelledFree e (runSearch es s)"
  by (induction es arbitrary: s) (simp_all add: runSearch_Nil runSearch_Cons cancelledFree_eventStep)

lemma cancelledFree_run_caller:
  assumes "cancelledFree e s" and "noLateMatch es s" and "Sched (Caller b) \<in> set es"
  shows "returned (runSearch es s) = Some (zeroKeypair, Some e)"
proof -
  from assms(3) obtain es1 es2 where es: "es = es1 @ Sched (Caller b) # es2"
    by (auto dest: split_list)
  from assms(2) have "noLateMatch es1 s" by (simp add: es noLateMatch_append)
  with assms(1) have "cancelledFree e (runSearch es1 s)" by (rule cancelledFree_runSearch)
  then have "returned (callerStep b (runSearch es1 s)) = Some (zeroKeypair, Some e)"
    by (rule cancelledFree_callerStep)
  then show ?thesis
    by (simp add: es runSearch_append runSearch_Cons returned_runSearch_stable)
qed

lemma noLateDelivery_append:
  "noLateDelivery (es @ es') s = (noLateDelivery es s \<and> noLateDelivery es' (runSearch es s))"
  by (induction es arbitrary: s) (simp_all add: runSearch_Nil runSearch_Cons)

lemma cancelledOpen_callerStep:
  assumes "cancelledOpen e s" and "\<not> takesDelivery (Sched (Caller b)) s"
  shows "cancelledOpen e (callerStep b s)"
    and "returned (callerStep b s) = Some (zeroKeypair, Some e)"
  using assms
  by (cases "returned s"; cases "found s"; simp add: callerStep_def cancelledOpen_def)+

lemma cancelledOpen_eventStep:
  assumes "cancelledOpen e s" and "\<not> takesDelivery ev s"
  shows "cancelledOpen e (eventStep ev s)"
proof (cases ev)
  case (Sched g)
  show ?thesis
  proof (cases g)
    case (Worker i acc)
    with Sched assms(1) show ?thesis by (simp add: cancelledOpen_workerStep)
  next
    case (Caller b)
    with Sched assms show ?thesis by (simp add: cancelledOpen_callerStep)
  qed
next
  case (Cancel c)
  with assms(1) show ?thesis by (simp add: cancelledOpen_cancel del: eventStep.simps)
qed

lemma cancelledOpen_runSearch:
  "cancelledOpen e s \<Longrightarrow> noLateDelivery es s \<Longrightarrow> cancelledOpen e (runSearch es s)"
  by (induction es arbitrary: s)
    (simp_all add: runSearch_Nil runSearch_Cons cancelledOpen_eventStep)

lemma cancelledOpen_run_caller:
  assumes "cancelledOpen e s" and "noLateDelivery es s" and "Sched (Caller b) \<in> set es"
  shows "returned (runSearch es s) = Some (zeroKeypair, Some e)"
proof -
  from assms(3) obtain es1 es2 where es: "es = es1 @ Sched (Caller b) # es2"
    by (auto dest: split_list)
  from assms(2) have p: "noLateDelivery es1 s"
    "\<not> takesDelivery (Sched (Caller b)) (runSearch es1 s)"
    by (simp_all add: es noLateDelivery_append)
  from assms(1) p(1) have "cancelledOpen e (runSearch es1 s)" by (rule cancelledOpen_runSearch)
  then have "returned (callerStep b (runSearch es1 s)) = Some (zeroKeypair, Some e)"
    using p(2) by (rule cancelledOpen_callerStep)
  then show ?thesis
    by (simp add: es runSearch_append runSearch_Cons returned_runSearch_stable)
qed

lemma noMatchYet_cancel:
  assumes "noMatchYet s"
  shows "cancelledFree e (eventStep (Cancel e) s)" and "cancelledOpen e (eventStep (Cancel e) s)"
  using assms by (simp_all add: noMatchYet_def cancelledFree_def cancelledOpen_def matchFree_def)

text \<open>
  Claim C4, amended. A return with a non-nil error always carries the zero \<open>Keypair\<close>.
  When the token fires before any worker has found a match (the caller has not returned,
  the channel is empty and no worker stands at its send), the call can only return the
  cancellation, with the zero \<open>Keypair\<close>, and does so at the caller's next step, on each of
  two conditions: no worker that had passed its \<open>select\<close> draws a matching key after the
  token fired, or the caller's \<open>select\<close> never takes a delivery after the token fired. The
  same holds, on no condition, when the context is cancelled already at the call. What is left out is the one case where the outcome is a keypair: a worker past its
  \<open>select\<close> draws a match after the token fired, sends it, and the caller's \<open>select\<close> takes
  the channel.
\<close>

theorem cancelled_call_returns_zero_keypair:
  "(generateVanityKeypair ctx0 S W es = Some (kp, Some err) \<longrightarrow> kp = zeroKeypair) \<and>
   (noMatchYet (runSearch es1 (startSearch None S W)) \<and>
    (noLateMatch es2 (eventStep (Cancel e) (runSearch es1 (startSearch None S W))) \<or>
     noLateDelivery es2 (eventStep (Cancel e) (runSearch es1 (startSearch None S W)))) \<longrightarrow>
      (generateVanityKeypair None S W (es1 @ Cancel e # es2) = None \<or>
       generateVanityKeypair None S W (es1 @ Cancel e # es2) = Some (zeroKeypair, Some e)) \<and>
      (Sched (Caller b) \<in> set es2 \<longrightarrow>
       generateVanityKeypair None S W (es1 @ Cancel e # es2) = Some (zeroKeypair, Some e))) \<and>
   (generateVanityKeypair (Some e) S W es = None \<or>
    generateVanityKeypair (Some e) S W es = Some (zeroKeypair, Some e)) \<and>
   (Sched (Caller b) \<in> set es \<longrightarrow>
    generateVanityKeypair (Some e) S W es = Some (zeroKeypair, Some e))"
proof (intro conjI impI)
  assume "generateVanityKeypair ctx0 S W es = Some (kp, Some err)"
  then show "kp = zeroKeypair" by (simp add: returned_error_zero)
next
  let ?s = "eventStep (Cancel e) (runSearch es1 (startSearch None S W))"
  assume a: "noMatchYet (runSearch es1 (startSearch None S W)) \<and>
    (noLateMatch es2 ?s \<or> noLateDelivery es2 ?s)"
  then have f: "cancelledFree e ?s" and p: "cancelledOpen e ?s"
    by (simp_all add: noMatchYet_cancel del: eventStep.simps)
  from a have "noLateMatch es2 ?s \<or> noLateDelivery es2 ?s" by simp
  then have o: "cancelledOpen e (runSearch es2 ?s)"
  proof
    assume "noLateMatch es2 ?s"
    with f have "cancelledFree e (runSearch es2 ?s)" by (rule cancelledFree_runSearch)
    then show ?thesis by (simp add: cancelledFree_def)
  next
    assume "noLateDelivery es2 ?s"
    with p show ?thesis by (rule cancelledOpen_runSearch)
  qed
  then show "generateVanityKeypair None S W (es1 @ Cancel e # es2) = None \<or>
       generateVanityKeypair None S W (es1 @ Cancel e # es2) = Some (zeroKeypair, Some e)"
    by (simp add: generateVanityKeypair_def runSearch_append runSearch_Cons cancelledOpen_def
        del: eventStep.simps)
  assume c: "Sched (Caller b) \<in> set es2"
  from a have "noLateMatch es2 ?s \<or> noLateDelivery es2 ?s" by simp
  then have "returned (runSearch es2 ?s) = Some (zeroKeypair, Some e)"
  proof
    assume "noLateMatch es2 ?s"
    with f show ?thesis using c by (rule cancelledFree_run_caller)
  next
    assume "noLateDelivery es2 ?s"
    with p show ?thesis using c by (rule cancelledOpen_run_caller)
  qed
  then show "generateVanityKeypair None S W (es1 @ Cancel e # es2) = Some (zeroKeypair, Some e)"
    by (simp add: generateVanityKeypair_def runSearch_append runSearch_Cons del: eventStep.simps)
next
  have "cancelledIdle e (runSearch es (startSearch (Some e) S W))"
    using cancelledIdle_start by (rule cancelledIdle_runSearch)
  then show "generateVanityKeypair (Some e) S W es = None \<or>
    generateVanityKeypair (Some e) S W es = Some (zeroKeypair, Some e)"
    by (simp add: generateVanityKeypair_def cancelledIdle_def)
next
  assume "Sched (Caller b) \<in> set es"
  with cancelledIdle_start
  have "returned (runSearch es (startSearch (Some e) S W)) = Some (zeroKeypair, Some e)"
    by (rule cancelledIdle_run_caller)
  then show "generateVanityKeypair (Some e) S W es = Some (zeroKeypair, Some e)"
    by (simp add: generateVanityKeypair_def)
qed

text \<open>
  The theorem on a search for \<open>ponz\<close> with two workers. Worker 0 is in its \<open>default\<close> branch
  when the token fires; it draws a key that does not match, sees the cancellation at its
  \<open>select\<close> and returns, as does worker 1; the caller returns the cancellation with the zero
  \<open>Keypair\<close>. On the second schedule worker 0 draws \<open>1...1ponz\<close> after the token fired and
  sends it, and the caller's \<open>select\<close> takes the cancellation. On the third the caller's
  \<open>select\<close> runs before that key is sent and finds only the cancellation ready.
\<close>

theorem cancelled_call_returns_zero_keypair_witness:
  "noMatchYet (runSearch [Sched (Worker 0 ponzAccount)] (startSearch None ''ponz'' 2)) \<and>
   noLateMatch
     [Sched (Worker 0 (sampleAccount 1)), Sched (Worker 0 ponzAccount),
      Sched (Worker 1 ponzAccount), Sched (Caller False)]
     (eventStep (Cancel Canceled)
       (runSearch [Sched (Worker 0 ponzAccount)] (startSearch None ''ponz'' 2))) \<and>
   generateVanityKeypair None ''ponz'' 2
     ([Sched (Worker 0 ponzAccount)] @ Cancel Canceled #
      [Sched (Worker 0 (sampleAccount 1)), Sched (Worker 0 ponzAccount),
       Sched (Worker 1 ponzAccount), Sched (Caller False)]) =
     Some (zeroKeypair, Some Canceled) \<and>
   noLateDelivery
     [Sched (Worker 0 ponzAccount), Sched (Worker 0 ponzAccount), Sched (Caller True)]
     (eventStep (Cancel Canceled)
       (runSearch [Sched (Worker 0 ponzAccount)] (startSearch None ''ponz'' 2))) \<and>
   generateVanityKeypair None ''ponz'' 2
     ([Sched (Worker 0 ponzAccount)] @ Cancel Canceled #
      [Sched (Worker 0 ponzAccount), Sched (Worker 0 ponzAccount), Sched (Caller True)]) =
     Some (zeroKeypair, Some Canceled) \<and>
   noLateDelivery
     [Sched (Caller False), Sched (Worker 0 ponzAccount), Sched (Worker 0 ponzAccount)]
     (eventStep (Cancel Canceled)
       (runSearch [Sched (Worker 0 ponzAccount)] (startSearch None ''ponz'' 2))) \<and>
   generateVanityKeypair None ''ponz'' 2
     ([Sched (Worker 0 ponzAccount)] @ Cancel Canceled #
      [Sched (Caller False), Sched (Worker 0 ponzAccount), Sched (Worker 0 ponzAccount)]) =
     Some (zeroKeypair, Some Canceled)"
proof -
  let ?es1 = "[Sched (Worker 0 ponzAccount)]"
  let ?s = "eventStep (Cancel Canceled) (runSearch ?es1 (startSearch None ''ponz'' 2))"
  let ?miss = "[Sched (Worker 0 (sampleAccount 1)), Sched (Worker 0 ponzAccount),
      Sched (Worker 1 ponzAccount), Sched (Caller False)]"
  let ?hit = "[Sched (Worker 0 ponzAccount), Sched (Worker 0 ponzAccount), Sched (Caller True)]"
  let ?early = "[Sched (Caller False), Sched (Worker 0 ponzAccount), Sched (Worker 0 ponzAccount)]"
  have y: "noMatchYet (runSearch ?es1 (startSearch None ''ponz'' 2))"
    by (simp add: noMatchYet_def matchFree_def search_eval)
  have l: "noLateMatch ?miss ?s" by (simp add: search_eval)
  have d: "noLateDelivery ?hit ?s" by (simp add: search_eval)
  have d': "noLateDelivery ?early ?s" by (simp add: search_eval)
  have c1: "Sched (Caller False) \<in> set ?miss" by simp
  have c2: "Sched (Caller True) \<in> set ?hit" by simp
  have c3: "Sched (Caller False) \<in> set ?early" by simp
  from cancelled_call_returns_zero_keypair
    [of None "''ponz''" 2 "[]" zeroKeypair Canceled ?es1 ?miss Canceled False] y l c1
  have r1: "generateVanityKeypair None ''ponz'' 2 (?es1 @ Cancel Canceled # ?miss) =
      Some (zeroKeypair, Some Canceled)"
    by blast
  from cancelled_call_returns_zero_keypair
    [of None "''ponz''" 2 "[]" zeroKeypair Canceled ?es1 ?hit Canceled True] y d c2
  have r2: "generateVanityKeypair None ''ponz'' 2 (?es1 @ Cancel Canceled # ?hit) =
      Some (zeroKeypair, Some Canceled)"
    by blast
  from cancelled_call_returns_zero_keypair
    [of None "''ponz''" 2 "[]" zeroKeypair Canceled ?es1 ?early Canceled False] y d' c3
  have r3: "generateVanityKeypair None ''ponz'' 2 (?es1 @ Cancel Canceled # ?early) =
      Some (zeroKeypair, Some Canceled)"
    by blast
  from y l r1 d r2 d' r3 show ?thesis by blast
qed

text \<open>
  Claim C4 as stated fails when a worker is past its \<open>select\<close> as the token fires. Worker
  0 takes the \<open>default\<close> branch; the token fires (no match has been found: the channel is
  empty and the worker has not drawn its sample); the worker draws \<open>1...1ponz\<close> and sends
  it; the caller's \<open>select\<close> finds both cases ready and takes the channel. The call returns
  the keypair and a \<open>nil\<close> error, not the cancellation.
\<close>

theorem late_match_beats_cancellation_counterexample:
  "ctxErr (runSearch [Sched (Worker 0 ponzAccount), Cancel Canceled]
     (startSearch None ''ponz'' 1)) = Some Canceled \<and>
   found (runSearch [Sched (Worker 0 ponzAccount), Cancel Canceled]
     (startSearch None ''ponz'' 1)) = [] \<and>
   goroutines (runSearch [Sched (Worker 0 ponzAccount), Cancel Canceled]
     (startSearch None ''ponz'' 1)) = [InDefault] \<and>
   generateVanityKeypair None ''ponz'' 1
     [Sched (Worker 0 ponzAccount), Cancel Canceled, Sched (Worker 0 ponzAccount),
      Sched (Worker 0 ponzAccount), Sched (Caller False)] = Some (ponzKeypair, None)"
  by (simp add: search_eval)

section \<open>Workers left behind\<close>

lemma blockedSender_workerStep:
  assumes "blockedSender i kp s"
  shows "blockedSender i kp (workerStep j acc s)"
proof (cases "j < length (goroutines s)")
  case False
  then show ?thesis using assms by (simp add: workerStep_def)
next
  case True
  note j = this
  show ?thesis
  proof (cases "j = i")
    case True
    then show ?thesis using assms by (simp add: workerStep_def blockedSender_def)
  next
    case False
    then show ?thesis using assms j
      by (cases "goroutines s ! j") (simp_all add: workerStep_def blockedSender_def Let_def)
  qed
qed

lemma blockedSender_callerStep: "blockedSender i kp s \<Longrightarrow> blockedSender i kp (callerStep b s)"
  by (auto simp: blockedSender_def callerStep_def)

lemma blockedSender_eventStep:
  assumes "blockedSender i kp s"
  shows "blockedSender i kp (eventStep ev s)"
proof (cases ev)
  case (Sched g)
  then show ?thesis using assms
    by (cases g) (simp_all add: blockedSender_workerStep blockedSender_callerStep)
next
  case (Cancel c)
  then show ?thesis using assms by (cases "ctxErr s") (simp_all add: blockedSender_def)
qed

lemma blockedSender_runSearch: "blockedSender i kp s \<Longrightarrow> blockedSender i kp (runSearch es s)"
  by (induction es arbitrary: s)
    (simp_all add: runSearch_Nil runSearch_Cons blockedSender_eventStep)

text \<open>
  Claim C7 does not hold of the code: the send \<open>found <- Keypair{...}\<close> is a blocking send
  with no alternative. With the empty suffix every sample matches. On the schedule
  \<open>threeMatches\<close> three workers each find a match; worker 0 sends, the caller receives that
  keypair and returns it, worker 1 sends into the free slot, and worker 2 stands at its
  send with the buffer full. Whatever happens afterwards (any further steps, and also the
  \<open>cancel()\<close> that follows the call), worker 2 is still at its send: the goroutine never
  terminates.
\<close>

theorem third_match_blocks_forever:
  "goroutines (runSearch (threeMatches @ es) (startSearch None [] 3)) ! 2 =
     Sending (sampleKeypair (CHR ''4'')) \<and>
   generateVanityKeypair None [] 3 (threeMatches @ es) = Some (sampleKeypair (CHR ''2''), None)"
proof -
  let ?s = "runSearch threeMatches (startSearch None [] 3)"
  have "blockedSender 2 (sampleKeypair (CHR ''4'')) ?s"
    by (simp add: blockedSender_def threeMatches_def search_eval)
  then have "blockedSender 2 (sampleKeypair (CHR ''4'')) (runSearch es ?s)"
    by (rule blockedSender_runSearch)
  then have a: "goroutines (runSearch (threeMatches @ es) (startSearch None [] 3)) ! 2 =
      Sending (sampleKeypair (CHR ''4''))"
    by (simp add: blockedSender_def runSearch_append)
  have "returned ?s = Some (sampleKeypair (CHR ''2''), None)"
    by (simp add: threeMatches_def search_eval)
  then have "returned (runSearch es ?s) = Some (sampleKeypair (CHR ''2''), None)"
    by (rule returned_runSearch_stable)
  then show ?thesis using a by (simp add: generateVanityKeypair_def runSearch_append)
qed

section \<open>Termination of the search\<close>


















section \<open>The steps of the maintainer\<close>

lemma loopHead_less: "c < T \<Longrightarrow> loopHead T D c = (Searching c, [])"
  by (simp add: loopHead_def)

lemma countUnpicked_None: "countUnpicked None rows = Inr (unpicked rows)"
  by (simp add: countUnpicked_def unpicked_def)

lemma countUnpicked_Some: "countUnpicked (Some err) rows = Inl err"
  by (simp add: countUnpicked_def)

lemma step_Checking:
  "step T S D W (Checking, rows) (CountReply fault) =
     (case fault of
        Some err \<Rightarrow> ((Checking, rows), [CallCount, LogCountError err, Sleep (10 * Second)])
      | None \<Rightarrow>
          (if T \<le> unpicked rows
           then ((Checking, rows), [CallCount, LogEnough (unpicked rows) T D, Sleep D])
           else ((Searching (unpicked rows), rows), [CallCount, LogBelow (unpicked rows) T])))"
  by (cases fault) (simp_all add: countUnpicked_None countUnpicked_Some loopHead_less)

lemma step_Recounting:
  "step T S D W (Recounting k, rows) (CountReply fault) =
     (case fault of
        Some err \<Rightarrow>
          ((Checking, rows), [CallCount, LogRecountError err, LogTargetReached T D, Sleep D])
      | None \<Rightarrow>
          (if unpicked rows < T
           then ((Searching (unpicked rows), rows),
                 [CallCount, LogAdded (PublicKey k) (unpicked rows)])
           else ((Checking, rows),
                 [CallCount, LogAdded (PublicKey k) (unpicked rows), LogTargetReached T D,
                  Sleep D])))"
  by (cases fault) (simp_all add: countUnpicked_None countUnpicked_Some loopHead_def)

lemma step_Searching:
  "step T S D W (Searching c, rows) (SearchRun gs) =
     (case generateVanityKeypair None S W (map Sched gs) of
        None \<Rightarrow> ((Searching c, rows), [])
      | Some (kp, e) \<Rightarrow> ((Inserting c kp, rows), [CallSearch]))"
proof (cases "generateVanityKeypair None S W (map Sched gs)")
  case None
  then show ?thesis by simp
next
  case (Some x)
  obtain kp e where x: "x = (kp, e)" by (cases x)
  have "e = None"
  proof (cases e)
    case None
    then show ?thesis .
  next
    case (Some err)
    with \<open>generateVanityKeypair None S W (map Sched gs) = Some x\<close> x open_context_no_error
    show ?thesis by blast
  qed
  with Some x show ?thesis by simp
qed

lemma step_Inserting:
  assumes "c < T"
  shows "step T S D W (Inserting c kp, rows) (InsertReply uuid now fault) =
     (case Create fault now (newTokenKey uuid kp) rows of
        (Some err, rows') \<Rightarrow>
          ((Searching c, rows'), [CallInsert (newTokenKey uuid kp), LogInsertError err])
      | (None, rows') \<Rightarrow>
          ((Recounting (newTokenKey uuid kp), rows'), [CallInsert (newTokenKey uuid kp)]))"
  using assms by (simp add: loopHead_less Let_def split: prod.splits option.splits)

lemma run_Cons_fst:
  "fst (run T S D W m (r # rs)) = fst (run T S D W (fst (step T S D W m r)) rs)"
  by (simp del: step.simps split: prod.splits)


lemma pcOk_step:
  assumes "pcOk T p"
  shows "pcOk T (fst (fst (step T S D W (p, rows) r)))"
proof (cases r)
  case (CountReply fault)
  show ?thesis
  proof (cases p)
    case Checking
    then show ?thesis using CountReply
      by (simp add: step_Checking del: step.simps split: option.splits)
  next
    case (Searching c)
    then show ?thesis using CountReply assms by simp
  next
    case (Inserting c kp)
    then show ?thesis using CountReply assms by simp
  next
    case (Recounting k)
    then show ?thesis using CountReply
      by (simp add: step_Recounting del: step.simps split: option.splits)
  qed
next
  case (SearchRun gs)
  show ?thesis
  proof (cases p)
    case (Searching c)
    then show ?thesis using SearchRun assms
      by (simp add: step_Searching del: step.simps split: option.splits prod.splits)
  qed (use SearchRun assms in simp_all)
next
  case (InsertReply uuid now fault)
  show ?thesis
  proof (cases p)
    case (Inserting c kp)
    then show ?thesis using InsertReply assms
      by (simp add: step_Inserting del: step.simps split: option.splits prod.splits)
  qed (use InsertReply assms in simp_all)
next
  case (Consumer pub)
  then show ?thesis using assms by simp
qed

lemma pcOk_run: "pcOk T (fst m) \<Longrightarrow> pcOk T (fst (fst (run T S D W m rs)))"
proof (induction rs arbitrary: m)
  case Nil
  then show ?case by simp
next
  case (Cons r rs)
  obtain p rows where m: "m = (p, rows)" by (cases m)
  from Cons.prems m have "pcOk T (fst (fst (step T S D W m r)))"
    by (simp add: pcOk_step del: step.simps)
  then have "pcOk T (fst (fst (run T S D W (fst (step T S D W m r)) rs)))" by (rule Cons.IH)
  then show ?case by (simp only: run_Cons_fst)
qed

section \<open>The end of a filling episode\<close>

lemma exit_by_condition:
  assumes "pcOk T p"
    and "step T S D W (p, rows) r = (m', acts)"
    and "LogTargetReached T D \<in> set acts"
    and "\<forall>err. LogRecountError err \<notin> set acts"
  shows "T \<le> unpicked (snd m')"
proof (cases r)
  case (CountReply fault)
  show ?thesis
  proof (cases p)
    case Checking
    then show ?thesis using CountReply assms(2,3)
      by (auto simp add: step_Checking simp del: step.simps split: option.splits if_splits)
  next
    case (Searching c)
    then show ?thesis using CountReply assms(2,3) by auto
  next
    case (Inserting c kp)
    then show ?thesis using CountReply assms(2,3) by auto
  next
    case (Recounting k)
    then show ?thesis using CountReply assms(2,3,4)
      by (auto simp add: step_Recounting simp del: step.simps split: option.splits if_splits)
  qed
next
  case (SearchRun gs)
  show ?thesis
  proof (cases p)
    case (Searching c)
    then show ?thesis using SearchRun assms(2,3)
      by (auto simp add: step_Searching simp del: step.simps split: option.splits prod.splits)
  qed (use SearchRun assms(2,3) in auto)
next
  case (InsertReply uuid now fault)
  show ?thesis
  proof (cases p)
    case (Inserting c kp)
    then show ?thesis using InsertReply assms(1,2,3)
      by (auto simp add: step_Inserting simp del: step.simps split: option.splits prod.splits)
  qed (use InsertReply assms(2,3) in auto)
next
  case (Consumer pub)
  then show ?thesis using assms(2,3) by auto
qed

lemma ponzSearch_returns:
  "generateVanityKeypair None ''ponz'' 2 (map Sched ponzSearch) = Some (ponzKeypair, None)"
  by (simp add: search_eval ponzSearch_def)

lemma newTokenKey_ponz:
  "(newTokenKey ''6ba7b810-9dad-11d1-80b4-00c04fd430c8'' ponzKeypair)\<lparr>CreatedAt := 7\<rparr> = ponzRow"
  by (simp add: newTokenKey_def ponzKeypair_def ponzRow_def)

lemma PublicKey_newTokenKey: "PublicKey (newTokenKey uuid kp) = Pub kp"
  by (simp add: newTokenKey_def)

lemma unpicked_ponzRow: "unpicked [ponzRow] = 1"
  by (simp add: unpicked_def ponzRow_def)

lemma ponzRow_unpicked: "\<not> IsPicked ponzRow"
  by (simp add: ponzRow_def)

lemma Create_empty: "Create None now k [] = (None, [k\<lparr>CreatedAt := now\<rparr>])"
  by (simp add: Create_def)

lemmas maint_eval = maintainUnpickedKeys_def ponzSearch_returns newTokenKey_ponz
  PublicKey_newTokenKey unpicked_ponzRow ponzRow_unpicked Create_empty countUnpicked_def loopHead_def Let_def

text \<open>
  The exit by the condition of the inner loop. When a step of the loop reaches the log
  line and the sleep after the inner loop without a failed recount, at least \<open>target\<close> rows
  are unpicked at that moment: the loop is entered and re-entered only below the target,
  and its condition is tested on a count just taken. The only way to that sleep with fewer
  rows is the \<open>break\<close> on a failed recount.
\<close>

lemma episode_exit_by_condition_reaches_target:
  assumes "maintainUnpickedKeys db T S D W rs = (m, acts)"
    and "step T S D W m r = (m', acts')"
    and "LogTargetReached T D \<in> set acts'"
    and "\<forall>err. LogRecountError err \<notin> set acts'"
  shows "\<exists>c. countUnpicked None (snd m') = Inr c \<and> T \<le> c"
proof -
  have "pcOk T (fst (fst (run T S D W (Checking, db) rs)))"
    by (rule pcOk_run) simp
  with assms(1) have ok: "pcOk T (fst m)" by (simp add: maintainUnpickedKeys_def)
  obtain p rows where m: "m = (p, rows)" by (cases m)
  from ok m assms(2,3,4) have "T \<le> unpicked (snd m')"
    using exit_by_condition [of T p S D W rows r m' acts'] by simp
  then show ?thesis by (simp add: countUnpicked_None)
qed

text \<open>
  Claim C2 does not hold of the code. With a target of three keys on an empty table and no
  consumer at all: the count is 0, the search returns a key, the insert succeeds, and the
  recount reports an error. The loop breaks, logs that the target of 3 is reached and
  sleeps the full interval, with one unpicked row in the table. The log line after the
  loop, the comment at the call of the loop (keep at least the target, sleep when enough)
  and the count at the head of the loop, which on an error backs off ten seconds and
  counts again, all say that the sleep after the loop is reached with the target met.
\<close>

theorem recount_error_ends_episode_below_target:
  "maintainUnpickedKeys [] 3 ''ponz'' (60 * Second) 2
     [CountReply None, SearchRun ponzSearch,
      InsertReply ''6ba7b810-9dad-11d1-80b4-00c04fd430c8'' 7 None,
      CountReply (Some ConnectionError)] =
     ((Checking, [ponzRow]),
      [CallCount, LogBelow 0 3, CallSearch,
       CallInsert (newTokenKey ''6ba7b810-9dad-11d1-80b4-00c04fd430c8'' ponzKeypair),
       CallCount, LogRecountError ConnectionError, LogTargetReached 3 (60 * Second),
       Sleep (60 * Second)]) \<and>
   countUnpicked None [ponzRow] = Inr 1 \<and> (1::int) < 3"
  by (simp add: maint_eval countUnpicked_None)

section \<open>The search inside the maintainer\<close>












section \<open>The insert\<close>

lemma filter_distinct_one:
  "distinct (map f xs) \<Longrightarrow> x \<in> set (map f xs) \<Longrightarrow> length (filter (\<lambda>k. f k = x) xs) = 1"
proof (induction xs)
  case Nil
  then show ?case by simp
next
  case (Cons a xs)
  show ?case
  proof (cases "f a = x")
    case True
    with Cons.prems have "x \<notin> set (map f xs)" by auto
    then have "filter (\<lambda>k. f k = x) xs = []" by (auto simp: filter_empty_conv)
    with True show ?thesis by simp
  next
    case False
    with Cons show ?thesis by auto
  qed
qed

lemma filter_absent: "x \<notin> set (map f xs) \<Longrightarrow> filter (\<lambda>k. f k = x) xs = []"
  by (auto simp: filter_empty_conv)

lemma Create_present:
  "PublicKey k \<in> set (map PublicKey rows) \<Longrightarrow> Create None now k rows = (None, rows)"
  by (simp add: Create_def)

lemma Create_None_cases:
  assumes "Create None now k rows = (None, rows')"
  shows "(PublicKey k \<in> set (map PublicKey rows) \<and> rows' = rows) \<or>
         (PublicKey k \<notin> set (map PublicKey rows) \<and> rows' = rows @ [k\<lparr>CreatedAt := now\<rparr>])"
  using assms by (auto simp: Create_def split: if_splits)

text \<open>
  Claim C3. The insert of the maintainer, when the database answers (no failure of its
  own), is idempotent on the public key: a keypair whose public key is stored already
  leaves the table as it is and the error is \<open>nil\<close>; inserting a key a second time, under any
  other UUID, changes nothing and succeeds again; a table with unique public keys stays so
  and holds exactly one row with that public key afterwards. A keypair whose public key is
  new (and that collides with no stored \<open>id\<close> or private key) is appended with
  \<open>isPicked = false\<close> and the current time.
\<close>

theorem insert_idempotent_on_public_key:
  "(Pub kp \<in> set (map PublicKey rows) \<longrightarrow>
      Create None now (newTokenKey uuid kp) rows = (None, rows)) \<and>
   (Create None now (newTokenKey uuid kp) rows = (None, rows') \<longrightarrow>
      Create None now' (newTokenKey uuid' kp) rows' = (None, rows')) \<and>
   (distinct (map PublicKey rows) \<and> Create None now (newTokenKey uuid kp) rows = (None, rows') \<longrightarrow>
      distinct (map PublicKey rows') \<and>
      length (filter (\<lambda>k. PublicKey k = Pub kp) rows') = 1) \<and>
   (Pub kp \<notin> set (map PublicKey rows) \<and> uuid \<notin> set (map ID rows) \<and>
    Priv kp \<notin> set (map PrivateKey rows) \<longrightarrow>
      Create None now (newTokenKey uuid kp) rows =
        (None, rows @ [\<lparr>ID = uuid, PrivateKey = Priv kp, PublicKey = Pub kp,
                          IsPicked = False, CreatedAt = now\<rparr>]))"
proof (intro conjI impI)
  assume "Pub kp \<in> set (map PublicKey rows)"
  then show "Create None now (newTokenKey uuid kp) rows = (None, rows)"
    by (simp add: Create_present newTokenKey_def)
next
  assume "Create None now (newTokenKey uuid kp) rows = (None, rows')"
  from Create_None_cases [OF this]
  have "PublicKey (newTokenKey uuid' kp) \<in> set (map PublicKey rows')"
    by (auto simp: newTokenKey_def)
  then show "Create None now' (newTokenKey uuid' kp) rows' = (None, rows')"
    by (rule Create_present)
next
  assume a: "distinct (map PublicKey rows) \<and>
    Create None now (newTokenKey uuid kp) rows = (None, rows')"
  from a have d: "distinct (map PublicKey rows)" by simp
  from a have "Create None now (newTokenKey uuid kp) rows = (None, rows')" by simp
  from Create_None_cases [OF this]
  have c: "(Pub kp \<in> set (map PublicKey rows) \<and> rows' = rows) \<or>
         (Pub kp \<notin> set (map PublicKey rows) \<and>
          rows' = rows @ [(newTokenKey uuid kp)\<lparr>CreatedAt := now\<rparr>])"
    by (simp add: newTokenKey_def)
  from c d show "distinct (map PublicKey rows')" by (auto simp: newTokenKey_def)
  from c show "length (filter (\<lambda>k. PublicKey k = Pub kp) rows') = 1"
  proof
    assume "Pub kp \<in> set (map PublicKey rows) \<and> rows' = rows"
    with d show ?thesis by (simp add: filter_distinct_one)
  next
    assume "Pub kp \<notin> set (map PublicKey rows) \<and>
      rows' = rows @ [(newTokenKey uuid kp)\<lparr>CreatedAt := now\<rparr>]"
    then show ?thesis by (simp add: filter_absent newTokenKey_def)
  qed
next
  assume "Pub kp \<notin> set (map PublicKey rows) \<and> uuid \<notin> set (map ID rows) \<and>
    Priv kp \<notin> set (map PrivateKey rows)"
  then show "Create None now (newTokenKey uuid kp) rows =
        (None, rows @ [\<lparr>ID = uuid, PrivateKey = Priv kp, PublicKey = Pub kp,
                          IsPicked = False, CreatedAt = now\<rparr>])"
    by (simp add: Create_def newTokenKey_def)
qed

text \<open>
  The theorem on the key \<open>1...1ponz\<close>: inserted into the empty table it becomes the row
  \<open>ponzRow\<close>; inserted again under another UUID, the table is unchanged, the error is
  \<open>nil\<close>, and one row holds that public key.
\<close>

theorem insert_idempotent_on_public_key_witness:
  "Create None 7 (newTokenKey ''6ba7b810-9dad-11d1-80b4-00c04fd430c8'' ponzKeypair) [] =
     (None, [ponzRow]) \<and>
   Pub ponzKeypair \<in> set (map PublicKey [ponzRow]) \<and>
   Create None 9 (newTokenKey ''6ba7b811-9dad-11d1-80b4-00c04fd430c8'' ponzKeypair) [ponzRow] =
     (None, [ponzRow]) \<and>
   distinct (map PublicKey [ponzRow]) \<and>
   length (filter (\<lambda>k. PublicKey k = Pub ponzKeypair) [ponzRow]) = 1"
proof -
  have fresh: "Pub ponzKeypair \<notin> set (map PublicKey []) \<and>
      ''6ba7b810-9dad-11d1-80b4-00c04fd430c8'' \<notin> set (map ID []) \<and>
      Priv ponzKeypair \<notin> set (map PrivateKey [])"
    by simp
  have row: "[] @ [\<lparr>ID = ''6ba7b810-9dad-11d1-80b4-00c04fd430c8'', PrivateKey = Priv ponzKeypair,
      PublicKey = Pub ponzKeypair, IsPicked = False, CreatedAt = 7\<rparr>] = [ponzRow]"
    by (simp add: ponzRow_def ponzKeypair_def)
  have stored: "Pub ponzKeypair \<in> set (map PublicKey [ponzRow])"
    by (simp add: ponzRow_def ponzKeypair_def)
  have d: "distinct (map PublicKey [ponzRow])" by simp
  from insert_idempotent_on_public_key
    [of ponzKeypair "[]" 7 "''6ba7b810-9dad-11d1-80b4-00c04fd430c8''" "[ponzRow]" 9
      "''6ba7b811-9dad-11d1-80b4-00c04fd430c8''"] fresh row
  have first: "Create None 7 (newTokenKey ''6ba7b810-9dad-11d1-80b4-00c04fd430c8'' ponzKeypair) [] =
     (None, [ponzRow])"
    by simp
  from insert_idempotent_on_public_key
    [of ponzKeypair "[ponzRow]" 9 "''6ba7b811-9dad-11d1-80b4-00c04fd430c8''" "[ponzRow]" 9
      "''6ba7b811-9dad-11d1-80b4-00c04fd430c8''"] stored d
  have "Create None 9 (newTokenKey ''6ba7b811-9dad-11d1-80b4-00c04fd430c8'' ponzKeypair) [ponzRow] =
     (None, [ponzRow]) \<and> length (filter (\<lambda>k. PublicKey k = Pub ponzKeypair) [ponzRow]) = 1"
    by blast
  with first stored d show ?thesis by simp
qed

section \<open>Checking\<close>

text \<open>
  Claim C5. When the count at the head of the loop succeeds with a value \<open>c\<close> that is at
  least the target, the loop logs, sleeps for the configured interval and is back at the
  count: the table is untouched and the step makes no search and no insert call.
\<close>

theorem enough_keys_sleeps_without_search:
  assumes "countUnpicked fault rows = Inr c" and "T \<le> c"
  shows "step T S D W (Checking, rows) (CountReply fault) =
           ((Checking, rows), [CallCount, LogEnough c T D, Sleep D]) \<and>
         maintainUnpickedKeys rows T S D W [CountReply fault] =
           ((Checking, rows), [CallCount, LogEnough c T D, Sleep D])"
  using assms by (simp add: maintainUnpickedKeys_def)

text \<open>The scenario of the claim: a target of five keys and five unpicked rows in the table.\<close>

theorem enough_keys_sleeps_without_search_witness:
  "countUnpicked None fiveRows = Inr 5 \<and> (5::int) \<le> 5 \<and>
   step 5 ''ponz'' (60 * Second) 100 (Checking, fiveRows) (CountReply None) =
     ((Checking, fiveRows), [CallCount, LogEnough 5 5 (60 * Second), Sleep (60 * Second)]) \<and>
   maintainUnpickedKeys fiveRows 5 ''ponz'' (60 * Second) 100 [CountReply None] =
     ((Checking, fiveRows), [CallCount, LogEnough 5 5 (60 * Second), Sleep (60 * Second)])"
proof -
  have c: "countUnpicked None fiveRows = Inr 5"
    by (simp add: countUnpicked_def fiveRows_def sampleRow_def)
  have t: "(5::int) \<le> 5" by simp
  from enough_keys_sleeps_without_search [OF c t, of "''ponz''" "60 * Second" 100] c
  show ?thesis by simp
qed

text \<open>
  Claim C6. When the count at the head of the loop fails, the loop logs the error, sleeps
  ten seconds and is back at the count, with the table untouched; the run goes on with the
  next answer of the environment. The other two store errors do not end the loop either:
  a failed insert leads back to the search of the same round and a failed recount to the
  sleep and the count. The loop has no exit: every control point it reaches is one of its
  four calls.
\<close>

theorem count_error_backs_off_and_retries:
  "step T S D W (Checking, rows) (CountReply (Some err)) =
     ((Checking, rows), [CallCount, LogCountError err, Sleep (10 * Second)]) \<and>
   maintainUnpickedKeys rows T S D W (CountReply (Some err) # rs) =
     (fst (maintainUnpickedKeys rows T S D W rs),
      [CallCount, LogCountError err, Sleep (10 * Second)] @
      snd (maintainUnpickedKeys rows T S D W rs)) \<and>
   (c < T \<longrightarrow>
      step T S D W (Inserting c kp, rows) (InsertReply uuid now (Some err)) =
        ((Searching c, rows), [CallInsert (newTokenKey uuid kp), LogInsertError err])) \<and>
   step T S D W (Recounting k, rows) (CountReply (Some err)) =
     ((Checking, rows), [CallCount, LogRecountError err, LogTargetReached T D, Sleep D])"
  by (simp add: maintainUnpickedKeys_def countUnpicked_Some Create_def loopHead_less
      split: prod.splits)

text \<open>
  The scenario of the specification: the count fails once and then succeeds. The loop logs
  the error, sleeps ten seconds, counts again and goes to sleep on five unpicked rows.
\<close>

theorem count_error_backs_off_and_retries_witness:
  "step 5 ''ponz'' (60 * Second) 100 (Checking, fiveRows) (CountReply (Some ConnectionError)) =
     ((Checking, fiveRows), [CallCount, LogCountError ConnectionError, Sleep (10 * Second)]) \<and>
   maintainUnpickedKeys fiveRows 5 ''ponz'' (60 * Second) 100
     [CountReply (Some ConnectionError), CountReply None] =
     ((Checking, fiveRows),
      [CallCount, LogCountError ConnectionError, Sleep (10 * Second),
       CallCount, LogEnough 5 5 (60 * Second), Sleep (60 * Second)]) \<and>
   (0::int) < 5 \<and>
   step 5 ''ponz'' (60 * Second) 100 (Inserting 0 ponzKeypair, [])
     (InsertReply ''6ba7b810-9dad-11d1-80b4-00c04fd430c8'' 7 (Some ConnectionError)) =
     ((Searching 0, []),
      [CallInsert (newTokenKey ''6ba7b810-9dad-11d1-80b4-00c04fd430c8'' ponzKeypair),
       LogInsertError ConnectionError])"
proof -
  have c: "countUnpicked None fiveRows = Inr 5"
    by (simp add: countUnpicked_def fiveRows_def sampleRow_def)
  have r: "maintainUnpickedKeys fiveRows 5 ''ponz'' (60 * Second) 100 [CountReply None] =
     ((Checking, fiveRows), [CallCount, LogEnough 5 5 (60 * Second), Sleep (60 * Second)])"
    using c by (simp add: maintainUnpickedKeys_def)
  have l: "(0::int) < 5" by simp
  from count_error_backs_off_and_retries
    [of 5 "''ponz''" "60 * Second" 100 "[]" ConnectionError "[]" 0 ponzKeypair
      "''6ba7b810-9dad-11d1-80b4-00c04fd430c8''" 7] l
  have i: "step 5 ''ponz'' (60 * Second) 100 (Inserting 0 ponzKeypair, [])
     (InsertReply ''6ba7b810-9dad-11d1-80b4-00c04fd430c8'' 7 (Some ConnectionError)) =
     ((Searching 0, []),
      [CallInsert (newTokenKey ''6ba7b810-9dad-11d1-80b4-00c04fd430c8'' ponzKeypair),
       LogInsertError ConnectionError])"
    by blast
  from count_error_backs_off_and_retries
    [of 5 "''ponz''" "60 * Second" 100 fiveRows ConnectionError "[CountReply None]" 0 ponzKeypair
      "''6ba7b810-9dad-11d1-80b4-00c04fd430c8''" 7] r l i
  show ?thesis
    by (simp del: step.simps)
qed

end
